theory Spec2Isabelle
  imports Main "HOL-Library.Word"
begin

section \<open>The caption client of frontend/app.js\<close>

text \<open>
  The browser client opens a WebSocket, records the microphone with a MediaRecorder,
  sends every recorded chunk as a binary message, sends the text message END when
  recording stops, and appends every caption it receives to the caption area.

  The script keeps its state in global variables that every handler reads when it runs
  (\<^verbatim>\<open>ws\<close>, \<^verbatim>\<open>mediaRecorder\<close>, \<^verbatim>\<open>isRecording\<close>, \<^verbatim>\<open>stream\<close>). Sockets are therefore
  modelled as handles into a store of ready states, so that a handler which was attached
  to one socket and runs after \<^verbatim>\<open>ws\<close> has been reassigned acts on the socket \<^verbatim>\<open>ws\<close>
  names at that moment, as the JavaScript does.

  Console output, \<^verbatim>\<open>document.title\<close>, the scroll position and the wall-clock value
  \<^verbatim>\<open>recordingStartTime\<close> have no effect on what is sent or displayed and are left out,
  together with the closure counters \<^verbatim>\<open>chunkCount\<close> and \<^verbatim>\<open>totalDataSent\<close> that feed
  console output only.
\<close>

subsection \<open>JavaScript strings and binary data\<close>

text \<open>A JavaScript string is a sequence of UTF-16 code units; a Blob or ArrayBuffer is a
  sequence of bytes, its \<^verbatim>\<open>size\<close> the number of bytes.\<close>

type_synonym code_unit = "16 word"
type_synonym jsstring = "code_unit list"
type_synonym bytes = "8 word list"

text \<open>The ASCII literals of the script, as code units.\<close>

definition utf16 :: "string \<Rightarrow> jsstring" where
  "utf16 cs = map (\<lambda>c. of_nat (of_char c)) cs"

text \<open>\<^verbatim>\<open>String.prototype.trim\<close> removes white space and line terminators from both ends:
  TAB, LF, VT, FF, CR, SPACE, NBSP, the Unicode space separators, LS, PS and the BOM.\<close>

definition is_white_space :: "code_unit \<Rightarrow> bool" where
  "is_white_space c \<longleftrightarrow>
     c \<in> set [0x9, 0xA, 0xB, 0xC, 0xD, 0x20, 0xA0, 0x1680, 0x2028, 0x2029, 0x202F,
              0x205F, 0x3000, 0xFEFF]
     \<or> (0x2000 \<le> c \<and> c \<le> 0x200A)"

definition trim :: "jsstring \<Rightarrow> jsstring" where
  "trim s = rev (dropWhile is_white_space (rev (dropWhile is_white_space s)))"

text \<open>\<^verbatim>\<open>message.startsWith(p)\<close> and \<^verbatim>\<open>message.substring(n)\<close>.\<close>

definition startsWith :: "jsstring \<Rightarrow> jsstring \<Rightarrow> bool" where
  "startsWith message p \<longleftrightarrow> take (length p) message = p"

definition substring :: "nat \<Rightarrow> jsstring \<Rightarrow> jsstring" where
  "substring n message = drop n message"

datatype js_error = TypeError | InvalidStateError

subsection \<open>The message handler\<close>

text \<open>\<^verbatim>\<open>event.data\<close> of a WebSocket message event is a string for a text message and a
  Blob for a binary one (the script leaves \<^verbatim>\<open>binaryType\<close> at its default).\<close>

datatype ws_data = TextData jsstring | BlobData bytes

text \<open>
  \<^verbatim>\<open>ws.onmessage\<close>, as a function of \<^verbatim>\<open>event.data\<close> and of \<^verbatim>\<open>captionsDiv.textContent\<close>.
  A Blob has no method \<^verbatim>\<open>startsWith\<close>: the first statement then throws a TypeError,
  before the caption area is touched.
\<close>

fun onmessage :: "ws_data \<Rightarrow> jsstring \<Rightarrow> js_error + jsstring" where
  "onmessage (BlobData b) textContent = Inl TypeError"
| "onmessage (TextData message) textContent =
     (if startsWith message (utf16 ''Final: '') then
        (let finalText = trim (substring 7 message) in
         if finalText \<noteq> [] then Inr (textContent @ finalText @ utf16 '' '')
         else Inr textContent)
      else
        (let cleanText = trim message in
         if cleanText \<noteq> [] then Inr (textContent @ cleanText @ utf16 '' '')
         else Inr textContent))"

text \<open>A run of the handler over the messages of a session, in arrival order; an exception
  in one handler call ends the run with that error.\<close>

fun onmessages :: "ws_data list \<Rightarrow> jsstring \<Rightarrow> js_error + jsstring" where
  "onmessages [] textContent = Inr textContent"
| "onmessages (d # ds) textContent =
     (case onmessage d textContent of
        Inl e \<Rightarrow> Inl e
      | Inr textContent' \<Rightarrow> onmessages ds textContent')"

subsection \<open>Choosing the recording format\<close>

definition supportedTypes :: "string list" where
  "supportedTypes =
     [''audio/webm;codecs=opus'', ''audio/webm'', ''audio/mp4;codecs=mp4a.40.2'',
      ''audio/ogg;codecs=opus'']"

text \<open>The \<^verbatim>\<open>for ... of\<close> loop with its \<^verbatim>\<open>break\<close>; \<^verbatim>\<open>selectedType\<close> starts as the empty
  string. The first argument is \<^verbatim>\<open>MediaRecorder.isTypeSupported\<close>.\<close>

fun select_type :: "(string \<Rightarrow> bool) \<Rightarrow> string list \<Rightarrow> string" where
  "select_type isTypeSupported [] = ''''"
| "select_type isTypeSupported (t # ts) =
     (if isTypeSupported t then t else select_type isTypeSupported ts)"

text \<open>A MediaRecorder: the options it was constructed with, the timeslice it was started
  with, and whether its state is \<^verbatim>\<open>recording\<close>. No \<^verbatim>\<open>mimeType\<close> option means the
  browser's default format.\<close>

record recorder =
  mimeType :: "string option"
  audioBitsPerSecond :: nat
  timeslice :: "nat option"
  recording :: bool

text \<open>The options object: the spread adds \<^verbatim>\<open>mimeType\<close> only when \<^verbatim>\<open>selectedType\<close> is a
  non-empty string.\<close>

definition new_recorder :: "(string \<Rightarrow> bool) \<Rightarrow> recorder" where
  "new_recorder isTypeSupported =
     (let selectedType = select_type isTypeSupported supportedTypes in
      \<lparr> mimeType = (if selectedType \<noteq> '''' then Some selectedType else None),
        audioBitsPerSecond = 128000,
        timeslice = None,
        recording = False \<rparr>)"

definition recorder_start :: "nat \<Rightarrow> recorder \<Rightarrow> recorder" where
  "recorder_start ms r = r\<lparr>timeslice := Some ms, recording := True\<rparr>"

subsection \<open>The state of the page\<close>

datatype ready_state = CONNECTING | OPEN | CLOSING | CLOSED

datatype frame = BinaryFrame bytes | TextFrame jsstring

datatype status_text =
    NoStatus | Starting | ConnectionError | Disconnected | MicrophoneAccessError
  | InitializationError | RecordingNow | RecordingError | Stopping | Stopped

text \<open>
  The globals of the script and the parts of the page it writes, followed by the browser's
  side: the ready state of every socket created so far (a socket is its index), the
  frames given to each socket for transmission in order, the data handlers suspended at
  \<^verbatim>\<open>await e.data.arrayBuffer()\<close> with the chunk each one holds, the \<^verbatim>\<open>onopen\<close> handlers
  suspended at \<^verbatim>\<open>await getUserMedia\<close>, the pending 500 ms timers and the queued
  \<^verbatim>\<open>start\<close> and \<^verbatim>\<open>stop\<close> events of recorders.
  \<^verbatim>\<open>stream\<close> is \<open>None\<close> for undefined or null and \<open>Some live\<close> for a MediaStream.
\<close>

record client =
  ws :: "nat option"
  mediaRecorder :: "recorder option"
  isRecording :: bool
  stream :: "bool option"
  captions :: jsstring
  status :: status_text
  startDisabled :: bool
  stopDisabled :: bool
  bodyRecording :: bool
  sockets :: "ready_state list"
  wire :: "(nat \<times> frame) list"
  reading :: "bytes list"
  awaitingMic :: nat
  timers :: nat
  startsQueued :: nat
  stopsQueued :: nat

definition readyState :: "client \<Rightarrow> nat \<Rightarrow> ready_state option" where
  "readyState s k = (if k < length (sockets s) then Some (sockets s ! k) else None)"

text \<open>The frames given to socket \<open>k\<close>, in order.\<close>

definition frames_on :: "nat \<Rightarrow> client \<Rightarrow> frame list" where
  "frames_on k s = map snd (filter (\<lambda>p. fst p = k) (wire s))"

text \<open>
  \<^verbatim>\<open>WebSocket.send\<close> of the browser: it throws InvalidStateError while the socket is
  connecting, queues the frame when the socket is open, and discards the data without an
  exception when the socket is closing or closed. A string is sent as a text frame, an
  ArrayBuffer as a binary frame.
\<close>

definition ws_send :: "nat \<Rightarrow> frame \<Rightarrow> client \<Rightarrow> js_error + client" where
  "ws_send k f s =
     (case readyState s k of
        None \<Rightarrow> Inl TypeError
      | Some CONNECTING \<Rightarrow> Inl InvalidStateError
      | Some OPEN \<Rightarrow> Inr (s\<lparr>wire := wire s @ [(k, f)]\<rparr>)
      | Some CLOSING \<Rightarrow> Inr s
      | Some CLOSED \<Rightarrow> Inr s)"

text \<open>\<^verbatim>\<open>WebSocket.close\<close> on an open socket starts the closing handshake.\<close>

definition ws_close :: "nat \<Rightarrow> client \<Rightarrow> client" where
  "ws_close k s =
     (if readyState s k = Some OPEN \<or> readyState s k = Some CONNECTING
      then s\<lparr>sockets := (sockets s)[k := CLOSING]\<rparr> else s)"

subsection \<open>cleanup\<close>

text \<open>
  The four parts of \<^verbatim>\<open>cleanup\<close>, in source order. \<^verbatim>\<open>mediaRecorder.stop()\<close> sets the
  recorder inactive and queues its last \<^verbatim>\<open>dataavailable\<close> and its \<^verbatim>\<open>stop\<close> event; an
  exception it may throw is caught and \<^verbatim>\<open>isRecording\<close> is cleared either way.
\<close>

definition cleanup_recorder :: "client \<Rightarrow> client" where
  "cleanup_recorder s =
     (case mediaRecorder s of
        Some r \<Rightarrow>
          if isRecording s then
            (if recording r
             then s\<lparr>mediaRecorder := Some (r\<lparr>recording := False\<rparr>),
                    stopsQueued := stopsQueued s + 1, isRecording := False\<rparr>
             else s\<lparr>isRecording := False\<rparr>)
          else s
      | None \<Rightarrow> s)"

definition cleanup_stream :: "client \<Rightarrow> client" where
  "cleanup_stream s = (case stream s of Some live \<Rightarrow> s\<lparr>stream := None\<rparr> | None \<Rightarrow> s)"

definition cleanup_socket :: "client \<Rightarrow> client" where
  "cleanup_socket s =
     (case ws s of
        Some k \<Rightarrow>
          if readyState s k = Some OPEN then
            (case ws_send k (TextFrame (utf16 ''END'')) s of
               Inr s' \<Rightarrow> s'\<lparr>timers := timers s' + 1\<rparr>
             | Inl e \<Rightarrow> s)
          else s
      | None \<Rightarrow> s)"

definition cleanup :: "client \<Rightarrow> client" where
  "cleanup s =
     (let s1 = s\<lparr>bodyRecording := False, status := Stopped\<rparr>;
          s2 = cleanup_recorder s1;
          s3 = cleanup_stream s2;
          s4 = cleanup_socket s3
      in s4\<lparr>ws := None, startDisabled := False, stopDisabled := True\<rparr>)"

subsection \<open>The handlers\<close>

text \<open>\<^verbatim>\<open>startBtn.onclick\<close>: the constructor creates a connecting socket; the four socket
  handlers it installs are the same for every socket.\<close>

definition start_click :: "client \<Rightarrow> client" where
  "start_click s =
     s\<lparr>startDisabled := True, stopDisabled := False, captions := [], status := Starting,
       ws := Some (length (sockets s)), sockets := sockets s @ [CONNECTING]\<rparr>"

text \<open>The \<^verbatim>\<open>catch\<close> of \<^verbatim>\<open>startBtn.onclick\<close>, entered when the constructor throws: the
  statements before it have run, the assignment to \<^verbatim>\<open>ws\<close> has not.\<close>

definition start_click_failed :: "client \<Rightarrow> client" where
  "start_click_failed s =
     cleanup (s\<lparr>startDisabled := True, stopDisabled := False, captions := [],
                status := InitializationError\<rparr>)"

text \<open>\<^verbatim>\<open>ws.onopen\<close> after \<^verbatim>\<open>getUserMedia\<close> has resolved: the argument lists the MIME types
  the browser's MediaRecorder supports. The recorder is constructed with the selected type
  and started with a timeslice of 3000 ms, which queues its \<^verbatim>\<open>start\<close> event; neither call
  throws for a type the browser has just reported as supported.\<close>

definition mic_granted :: "string list \<Rightarrow> client \<Rightarrow> client" where
  "mic_granted supported s =
     s\<lparr>stream := Some True,
       mediaRecorder := Some (recorder_start 3000 (new_recorder (\<lambda>t. t \<in> set supported))),
       startsQueued := startsQueued s + 1,
       isRecording := True\<rparr>"

text \<open>The \<^verbatim>\<open>catch\<close> of \<^verbatim>\<open>ws.onopen\<close>, when \<^verbatim>\<open>getUserMedia\<close> rejects.\<close>

definition mic_denied :: "client \<Rightarrow> client" where
  "mic_denied s = cleanup (s\<lparr>status := MicrophoneAccessError\<rparr>)"

text \<open>
  \<^verbatim>\<open>mediaRecorder.ondataavailable\<close> up to its \<^verbatim>\<open>await\<close>: the guard, then the read of the
  chunk is started and the handler is suspended holding the chunk. When the guard fails
  the chunk is skipped.
\<close>

definition data_guard :: "bytes \<Rightarrow> client \<Rightarrow> bool" where
  "data_guard chunk s \<longleftrightarrow>
     length chunk > 0 \<and> (case ws s of Some k \<Rightarrow> readyState s k = Some OPEN | None \<Rightarrow> False)"

definition ondataavailable :: "bytes \<Rightarrow> client \<Rightarrow> client" where
  "ondataavailable chunk s =
     (if data_guard chunk s then s\<lparr>reading := reading s @ [chunk]\<rparr> else s)"

text \<open>
  The rest of the handler, run when the read of the chunk at position \<open>i\<close> has finished:
  \<^verbatim>\<open>ws.send(arrayBuffer)\<close> on whatever \<^verbatim>\<open>ws\<close> is now. With \<^verbatim>\<open>ws\<close> null the property
  access throws a TypeError; every exception goes to the handler's \<^verbatim>\<open>catch\<close>, which
  logs it.
\<close>

definition remove_nth :: "nat \<Rightarrow> 'a list \<Rightarrow> 'a list" where
  "remove_nth i xs = take i xs @ drop (Suc i) xs"

definition send_chunk :: "bytes \<Rightarrow> client \<Rightarrow> js_error + client" where
  "send_chunk arrayBuffer s =
     (case ws s of
        None \<Rightarrow> Inl TypeError
      | Some k \<Rightarrow> ws_send k (BinaryFrame arrayBuffer) s)"

definition chunk_read :: "nat \<Rightarrow> client \<Rightarrow> client" where
  "chunk_read i s =
     (let arrayBuffer = reading s ! i;
          s1 = s\<lparr>reading := remove_nth i (reading s)\<rparr>
      in case send_chunk arrayBuffer s1 of Inr s2 \<Rightarrow> s2 | Inl e \<Rightarrow> s1)"

text \<open>The callback of \<^verbatim>\<open>setTimeout\<close> in \<^verbatim>\<open>cleanup\<close>; it reads the global \<^verbatim>\<open>ws\<close> when it
  runs.\<close>

definition close_timer :: "client \<Rightarrow> client" where
  "close_timer s =
     (case ws s of
        Some k \<Rightarrow> if readyState s k = Some OPEN then ws_close k s else s
      | None \<Rightarrow> s)"

text \<open>\<^verbatim>\<open>ws.onclose\<close>, \<^verbatim>\<open>stopBtn.onclick\<close>, the \<^verbatim>\<open>beforeunload\<close> listener and the handlers
  of the recorder's \<^verbatim>\<open>start\<close> and \<^verbatim>\<open>stop\<close> events.\<close>

definition onclose :: "client \<Rightarrow> client" where
  "onclose s = cleanup (s\<lparr>status := Disconnected\<rparr>)"

definition stop_click :: "client \<Rightarrow> client" where
  "stop_click s = cleanup (s\<lparr>status := Stopping\<rparr>)"

definition beforeunload :: "client \<Rightarrow> client" where
  "beforeunload s = (if isRecording s then cleanup s else s)"

definition onstart :: "client \<Rightarrow> client" where
  "onstart s = s\<lparr>status := RecordingNow, captions := [], bodyRecording := True\<rparr>"

definition onstop :: "client \<Rightarrow> client" where
  "onstop s = (case stream s of Some live \<Rightarrow> s\<lparr>stream := Some False\<rparr> | None \<Rightarrow> s)"

text \<open>The message handler on the page: an exception it throws is reported by the browser
  and leaves the page as it was.\<close>

definition message_event :: "ws_data \<Rightarrow> client \<Rightarrow> client" where
  "message_event d s =
     (case onmessage d (captions s) of
        Inr textContent \<Rightarrow> s\<lparr>captions := textContent\<rparr>
      | Inl e \<Rightarrow> s)"

subsection \<open>Events\<close>

text \<open>
  What can happen to the page, one event per task of the browser's event loop. An event
  that cannot happen in the current state (a click on a disabled button, an event of a
  socket that does not exist or is in the wrong state, a continuation nobody waits for)
  leaves the state unchanged. \<open>StartClickThrows\<close> is a click on Start in which the WebSocket
  constructor throws. \<open>ChunkRead i\<close> and \<open>ChunkReadFailed i\<close> end the read of the chunk the
  \<open>i\<close>-th suspended data handler waits for, the second with a rejected promise, which goes
  to the handler's \<^verbatim>\<open>catch\<close>. The keyboard shortcuts only click the two buttons.
\<close>

datatype event =
    StartClick
  | StartClickThrows
  | StopClick
  | BeforeUnload
  | SocketOpen nat
  | SocketMessage nat ws_data
  | SocketError nat
  | SocketClose nat
  | MicGranted "string list"
  | MicDenied
  | RecorderStart
  | DataAvailable bytes
  | ChunkRead nat
  | ChunkReadFailed nat
  | RecorderStop
  | RecorderErrorEvent
  | CloseTimer

fun step :: "event \<Rightarrow> client \<Rightarrow> client" where
  "step StartClick s = (if startDisabled s then s else start_click s)"
| "step StartClickThrows s = (if startDisabled s then s else start_click_failed s)"
| "step StopClick s = (if stopDisabled s then s else stop_click s)"
| "step BeforeUnload s = beforeunload s"
| "step (SocketOpen k) s =
     (if readyState s k = Some CONNECTING
      then s\<lparr>sockets := (sockets s)[k := OPEN], awaitingMic := awaitingMic s + 1\<rparr>
      else s)"
| "step (SocketMessage k d) s =
     (if readyState s k = Some OPEN \<or> readyState s k = Some CLOSING
      then message_event d s else s)"
| "step (SocketError k) s =
     (if k < length (sockets s) then s\<lparr>status := ConnectionError\<rparr> else s)"
| "step (SocketClose k) s =
     (if k < length (sockets s) \<and> readyState s k \<noteq> Some CLOSED
      then onclose (s\<lparr>sockets := (sockets s)[k := CLOSED]\<rparr>) else s)"
| "step (MicGranted supported) s =
     (if awaitingMic s > 0
      then mic_granted supported (s\<lparr>awaitingMic := awaitingMic s - 1\<rparr>) else s)"
| "step MicDenied s =
     (if awaitingMic s > 0 then mic_denied (s\<lparr>awaitingMic := awaitingMic s - 1\<rparr>) else s)"
| "step RecorderStart s =
     (if startsQueued s > 0 then onstart (s\<lparr>startsQueued := startsQueued s - 1\<rparr>) else s)"
| "step (DataAvailable chunk) s =
     (if mediaRecorder s \<noteq> None then ondataavailable chunk s else s)"
| "step (ChunkRead i) s = (if i < length (reading s) then chunk_read i s else s)"
| "step (ChunkReadFailed i) s =
     (if i < length (reading s) then s\<lparr>reading := remove_nth i (reading s)\<rparr> else s)"
| "step RecorderStop s =
     (if stopsQueued s > 0 then onstop (s\<lparr>stopsQueued := stopsQueued s - 1\<rparr>) else s)"
| "step RecorderErrorEvent s =
     (if mediaRecorder s \<noteq> None then s\<lparr>status := RecordingError\<rparr> else s)"
| "step CloseTimer s =
     (if timers s > 0 then close_timer (s\<lparr>timers := timers s - 1\<rparr>) else s)"

fun run :: "event list \<Rightarrow> client \<Rightarrow> client" where
  "run [] s = s"
| "run (e # es) s = run es (step e s)"

text \<open>The page right after the script has loaded: the globals have their initial values
  and the browser holds no socket, frame, suspended handler or timer of this page. What
  the markup puts into the caption area, the status area and the buttons is left open.\<close>

definition page_loaded :: "client \<Rightarrow> bool" where
  "page_loaded s \<longleftrightarrow>
     ws s = None \<and> mediaRecorder s = None \<and> \<not> isRecording s \<and> stream s = None \<and>
     sockets s = [] \<and> wire s = [] \<and> reading s = [] \<and> awaitingMic s = 0 \<and>
     timers s = 0 \<and> startsQueued s = 0 \<and> stopsQueued s = 0"

definition fresh_page :: client where
  "fresh_page =
     \<lparr> ws = None, mediaRecorder = None, isRecording = False, stream = None,
       captions = [], status = NoStatus, startDisabled = False, stopDisabled = True,
       bodyRecording = False, sockets = [], wire = [], reading = [], awaitingMic = 0,
       timers = 0, startsQueued = 0, stopsQueued = 0 \<rparr>"

text \<open>The shape of what one connection carries: audio frames, then at most one text frame,
  then nothing.\<close>

fun end_last :: "frame list \<Rightarrow> bool" where
  "end_last [] = True"
| "end_last (BinaryFrame b # fs) = end_last fs"
| "end_last (TextFrame t # fs) = (fs = [])"

text \<open>What one handler call adds to the caption area for the text it is about to show:
  \<^verbatim>\<open>if (text) captionsDiv.textContent += text + " "\<close>.\<close>

definition caption_suffix :: "jsstring \<Rightarrow> jsstring" where
  "caption_suffix text = (if text \<noteq> [] then text @ utf16 '' '' else [])"

text \<open>The type of a frame, which is all a receiver needs to tell the Control Signal from
  audio.\<close>

fun is_text_frame :: "frame \<Rightarrow> bool" where
  "is_text_frame (TextFrame t) = True"
| "is_text_frame (BinaryFrame b) = False"

text \<open>What holds of the page in every state it can reach: \<^verbatim>\<open>ws\<close> names an existing
  socket; every frame was given to an existing socket and is a non-empty binary frame or
  the text END, the latter only on a socket \<^verbatim>\<open>ws\<close> no longer names; no suspended data
  handler holds an empty chunk; the recorder was started with a timeslice of 3000 ms.\<close>

definition consistent :: "client \<Rightarrow> bool" where
  "consistent s \<longleftrightarrow>
     (\<forall>k. ws s = Some k \<longrightarrow> k < length (sockets s)) \<and>
     (\<forall>p\<in>set (wire s). fst p < length (sockets s) \<and>
        ((\<exists>b. snd p = BinaryFrame b \<and> b \<noteq> []) \<or>
         (snd p = TextFrame (utf16 ''END'') \<and> ws s \<noteq> Some (fst p)))) \<and>
     (\<forall>c\<in>set (reading s). c \<noteq> []) \<and>
     (\<forall>r. mediaRecorder s = Some r \<longrightarrow> timeslice r = Some 3000)"

text \<open>The call \<^verbatim>\<open>ws.send(arrayBuffer)\<close> the \<open>i\<close>-th suspended data handler makes when it
  resumes, with its outcome: an exception for the handler's \<^verbatim>\<open>catch\<close>, or the page after
  the call.\<close>

definition resumed_send :: "nat \<Rightarrow> client \<Rightarrow> js_error + client" where
  "resumed_send i s = send_chunk (reading s ! i) (s\<lparr>reading := remove_nth i (reading s)\<rparr>)"

text \<open>A chunk passed the check of the data handler in a run: at some point of the run the
  recorder delivered it and the guard held in the state of that moment.\<close>

definition passed_guard :: "event list \<Rightarrow> client \<Rightarrow> bytes \<Rightarrow> bool" where
  "passed_guard evs page chunk \<longleftrightarrow>
     (\<exists>n < length evs. evs ! n = DataAvailable chunk \<and> data_guard chunk (run (take n evs) page))"


section \<open>The server's session controller\<close>

text \<open>
  Modelled from the spec: the server (backend/main.py) is not among the sources. What
  follows is the Streaming Session Controller of section 4.4 of the specification with the
  Session Buffer of 4.1, the Audio Decoder of 4.2 and the Transcription Engine of 4.3 as
  two parameters, each of which may fail.
\<close>

text \<open>Modelled from the spec: the states of the controller, the two kinds of Transcript
  Unit, the two ways a pass can fail, and what the transport and the pass scheduler
  deliver to the controller.\<close>

datatype phase = Idle | Connected | Recording | Finalizing | Closed | Errored

datatype unit_kind = Incremental | Final

datatype pass_error = DecodeError | EngineError

datatype transport_event =
    TransportOpen
  | Fragment bytes
  | PeriodicTrigger
  | PassCompleted
  | ControlSignal
  | ClientClosed
  | TransportFailed

text \<open>Modelled from the spec: a session holds its state, the bytes accumulated so far, the
  snapshot an incremental pass in flight is working on, and the Transcript Units emitted
  to the transport, in order.\<close>

record session =
  phase :: phase
  buffer :: bytes
  in_flight :: "bytes option"
  emitted :: "(unit_kind \<times> string) list"

definition new_session :: session where
  "new_session = \<lparr> phase = Idle, buffer = [], in_flight = None, emitted = [] \<rparr>"

text \<open>Modelled from the spec: one pass decodes a snapshot of the whole buffer and
  transcribes the waveform; either stage can fail.\<close>

definition run_pass ::
  "(bytes \<Rightarrow> 'w option) \<Rightarrow> ('w \<Rightarrow> string option) \<Rightarrow> bytes \<Rightarrow> pass_error + string" where
  "run_pass decode transcribe snapshot =
     (case decode snapshot of
        None \<Rightarrow> Inl DecodeError
      | Some waveform \<Rightarrow>
          (case transcribe waveform of None \<Rightarrow> Inl EngineError | Some text \<Rightarrow> Inr text))"

text \<open>Modelled from the spec: an incremental pass that completes emits its text as an
  incremental unit; a failed incremental pass is skipped and the session continues.\<close>

definition complete_in_flight ::
  "(bytes \<Rightarrow> 'w option) \<Rightarrow> ('w \<Rightarrow> string option) \<Rightarrow> session \<Rightarrow> session" where
  "complete_in_flight decode transcribe s =
     (case in_flight s of
        None \<Rightarrow> s
      | Some snapshot \<Rightarrow>
          (case run_pass decode transcribe snapshot of
             Inr text \<Rightarrow> s\<lparr>emitted := emitted s @ [(Incremental, text)], in_flight := None\<rparr>
           | Inl e \<Rightarrow> s\<lparr>in_flight := None\<rparr>))"

text \<open>Modelled from the spec: on the Control Signal an incremental pass in flight is allowed
  to complete, then one last pass runs over the complete buffer; its text is emitted as the
  final unit and the session closes, or the pass fails, no final unit is sent and the
  session ends in Errored. The buffer is released either way.\<close>

definition finalize ::
  "(bytes \<Rightarrow> 'w option) \<Rightarrow> ('w \<Rightarrow> string option) \<Rightarrow> session \<Rightarrow> session" where
  "finalize decode transcribe s =
     (let s1 = complete_in_flight decode transcribe (s\<lparr>phase := Finalizing\<rparr>) in
      case run_pass decode transcribe (buffer s1) of
        Inr text \<Rightarrow> s1\<lparr>emitted := emitted s1 @ [(Final, text)], buffer := [], phase := Closed\<rparr>
      | Inl e \<Rightarrow> s1\<lparr>buffer := [], phase := Errored\<rparr>)"

text \<open>Modelled from the spec: the transitions of section 4.4. The Control Signal has the
  meaning section 3 gives it in both states in which the session is live. An event for
  which the state machine lists no transition leaves the session unchanged.\<close>

fun controller ::
  "(bytes \<Rightarrow> 'w option) \<Rightarrow> ('w \<Rightarrow> string option) \<Rightarrow> transport_event \<Rightarrow> session \<Rightarrow> session"
  where
  "controller decode transcribe TransportOpen s =
     (if phase s = Idle then s\<lparr>phase := Connected\<rparr> else s)"
| "controller decode transcribe (Fragment fragment) s =
     (if phase s = Connected \<or> phase s = Recording
      then s\<lparr>buffer := buffer s @ fragment, phase := Recording\<rparr> else s)"
| "controller decode transcribe PeriodicTrigger s =
     (if phase s = Recording \<and> in_flight s = None
      then s\<lparr>in_flight := Some (buffer s)\<rparr> else s)"
| "controller decode transcribe PassCompleted s =
     (if phase s = Recording then complete_in_flight decode transcribe s else s)"
| "controller decode transcribe ControlSignal s =
     (if phase s = Connected \<or> phase s = Recording
      then finalize decode transcribe s else s)"
| "controller decode transcribe ClientClosed s =
     (if phase s = Closed \<or> phase s = Errored then s
      else s\<lparr>buffer := [], in_flight := None, phase := Closed\<rparr>)"
| "controller decode transcribe TransportFailed s =
     (if phase s = Closed \<or> phase s = Errored then s
      else s\<lparr>buffer := [], in_flight := None, phase := Errored\<rparr>)"

text \<open>Modelled from the spec: a session is served by handling its events in the order the
  transport delivers them.\<close>

fun serve ::
  "(bytes \<Rightarrow> 'w option) \<Rightarrow> ('w \<Rightarrow> string option) \<Rightarrow> transport_event list \<Rightarrow> session
   \<Rightarrow> session" where
  "serve decode transcribe [] s = s"
| "serve decode transcribe (e # es) s =
     serve decode transcribe es (controller decode transcribe e s)"

text \<open>Modelled from the spec: the events of the recording part of a session are the
  fragments and the triggers and completions of incremental passes between them; the audio
  of a session is its fragments in order.\<close>

fun recording_event :: "transport_event \<Rightarrow> bool" where
  "recording_event (Fragment fragment) = True"
| "recording_event PeriodicTrigger = True"
| "recording_event PassCompleted = True"
| "recording_event e = False"

fun fragments_of :: "transport_event list \<Rightarrow> bytes" where
  "fragments_of [] = []"
| "fragments_of (Fragment fragment # es) = fragment @ fragments_of es"
| "fragments_of (e # es) = fragments_of es"

text \<open>A session that accepts audio and has emitted incremental units only.\<close>

definition live :: "session \<Rightarrow> bool" where
  "live s \<longleftrightarrow> (phase s = Connected \<or> phase s = Recording) \<and>
     (\<forall>u\<in>set (emitted s). fst u = Incremental)"

section \<open>Evaluating concrete runs\<close>

lemmas run_defs =
  start_click_def start_click_failed_def stop_click_def cleanup_def cleanup_recorder_def cleanup_stream_def
  cleanup_socket_def ws_send_def ws_close_def readyState_def mic_granted_def mic_denied_def
  ondataavailable_def data_guard_def chunk_read_def send_chunk_def remove_nth_def
  fresh_page_def new_recorder_def recorder_start_def supportedTypes_def onstart_def onstop_def
  onclose_def beforeunload_def close_timer_def message_event_def frames_on_def Let_def

section \<open>Received captions\<close>

lemma onmessage_text:
  "onmessage (TextData m) t =
     Inr (t @ caption_suffix
            (trim (if startsWith m (utf16 ''Final: '') then substring 7 m else m)))"
  by (simp add: caption_suffix_def Let_def)

lemma onmessages_append:
  "onmessages (ds @ es) t =
     (case onmessages ds t of Inl e \<Rightarrow> Inl e | Inr t' \<Rightarrow> onmessages es t')"
  by (induction ds arbitrary: t) (auto split: sum.splits)

lemma onmessages_incremental:
  "\<forall>m\<in>set incs. \<not> startsWith m (utf16 ''Final: '') \<Longrightarrow>
   onmessages (map TextData incs) t =
     Inr (t @ concat (map (\<lambda>m. caption_suffix (trim m)) incs))"
proof (induction incs arbitrary: t)
  case Nil
  then show ?case by simp
next
  case (Cons m incs)
  then show ?case by (simp add: onmessage_text del: onmessage.simps)
qed

text \<open>
  Claim C3, as the spec states it, fails: a message is taken as the final caption exactly
  when it starts with the seven code units of "Final: ", but the final caption is not
  rendered differently. "Final: hello" is a final message, "hello" is an incremental one,
  and both leave the same text in the caption area.
\<close>

theorem final_caption_same_display_counterexample:
  "startsWith (utf16 ''Final: hello'') (utf16 ''Final: '') \<and>
   \<not> startsWith (utf16 ''hello'') (utf16 ''Final: '') \<and>
   onmessage (TextData (utf16 ''Final: hello'')) [] =
     onmessage (TextData (utf16 ''hello'')) []"
  by (simp add: utf16_def startsWith_def substring_def trim_def is_white_space_def)

text \<open>
  Claim C3, amended: the handler takes the final branch exactly when the message starts
  with the 7-character prefix "Final: ", which it strips, and the incremental branch
  otherwise; in both branches the only effect is to append the trimmed payload and one
  space when the trimmed payload is not empty. A final caption with payload \<open>p\<close> is
  displayed as \<open>p\<close> alone would be.
\<close>

theorem onmessage_final_prefix_stripped_same_rendering:
  "length (utf16 ''Final: '') = 7 \<and>
   onmessage (TextData m) t =
     Inr (t @ caption_suffix
            (trim (if startsWith m (utf16 ''Final: '') then substring 7 m else m))) \<and>
   onmessage (TextData (utf16 ''Final: '' @ p)) t = Inr (t @ caption_suffix (trim p))"
  by (simp add: onmessage_text del: onmessage.simps)
     (simp add: utf16_def startsWith_def substring_def)

text \<open>
  Claim C4: for incremental messages \<open>incs\<close> (none starts with "Final: ") followed by one
  final message \<open>f\<close>, the handler runs over all of them without an exception, and the
  caption area ends as what it held before followed, in order, by each trimmed payload
  that is not empty and one space after it; a payload that trims to nothing adds nothing.
\<close>

theorem onmessages_incrementals_then_final:
  assumes "\<forall>m\<in>set incs. \<not> startsWith m (utf16 ''Final: '')"
    and "startsWith f (utf16 ''Final: '')"
  shows "onmessages (map TextData (incs @ [f])) t =
     Inr (t @ concat (map (\<lambda>m. caption_suffix (trim m)) incs)
            @ caption_suffix (trim (substring 7 f)))
     \<and> caption_suffix [] = []
     \<and> (\<forall>x. x \<noteq> [] \<longrightarrow> caption_suffix x = x @ utf16 '' '')"
  using assms
  by (simp add: onmessages_append onmessages_incremental onmessage_text caption_suffix_def
      del: onmessage.simps)

theorem onmessages_incrementals_then_final_witness:
  "\<not> startsWith (utf16 ''hello'') (utf16 ''Final: '') \<and>
   \<not> startsWith (utf16 ''  '') (utf16 ''Final: '') \<and>
   startsWith (utf16 ''Final: hello world'') (utf16 ''Final: '') \<and>
   onmessages (map TextData ([utf16 ''hello'', utf16 ''  ''] @ [utf16 ''Final: hello world''])) []
     = Inr (utf16 ''hello hello world '')"
proof -
  have h1: "\<forall>m\<in>set [utf16 ''hello'', utf16 ''  '']. \<not> startsWith m (utf16 ''Final: '')"
    by (simp add: utf16_def startsWith_def)
  have h2: "startsWith (utf16 ''Final: hello world'') (utf16 ''Final: '')"
    by (simp add: utf16_def startsWith_def)
  have shown: "[] @ concat (map (\<lambda>m. caption_suffix (trim m)) [utf16 ''hello'', utf16 ''  ''])
      @ caption_suffix (trim (substring 7 (utf16 ''Final: hello world'')))
      = utf16 ''hello hello world ''"
    by (simp add: utf16_def caption_suffix_def trim_def substring_def is_white_space_def)
  from onmessages_incrementals_then_final [OF h1 h2, of "[]"]
  have "onmessages (map TextData ([utf16 ''hello'', utf16 ''  ''] @ [utf16 ''Final: hello world''])) []
      = Inr ([] @ concat (map (\<lambda>m. caption_suffix (trim m)) [utf16 ''hello'', utf16 ''  ''])
               @ caption_suffix (trim (substring 7 (utf16 ''Final: hello world''))))"
    by (rule conjunct1)
  with shown h1 h2 show ?thesis by (simp only: simp_thms list.set ball_simps)
qed

text \<open>
  Claim C10: a call of the message handler never removes or rewrites caption text. For a
  text message the caption area afterwards is the caption area before followed by the
  trimmed payload and one space, or by nothing when the payload trims to the empty string;
  for a binary message the handler throws before it touches the caption area. So whatever
  message arrives on whatever socket, the old text is a prefix of the new text.
\<close>

theorem captions_append_only:
  "captions (message_event (TextData m) s) =
     captions s @ caption_suffix
       (trim (if startsWith m (utf16 ''Final: '') then substring 7 m else m)) \<and>
   captions (message_event (BlobData b) s) = captions s \<and>
   caption_suffix [] = [] \<and>
   (\<exists>suffix. captions (step (SocketMessage k d) s) = captions s @ suffix)"
proof (intro conjI)
  show "captions (message_event (TextData m) s) =
     captions s @ caption_suffix
       (trim (if startsWith m (utf16 ''Final: '') then substring 7 m else m))"
    by (simp add: message_event_def onmessage_text del: onmessage.simps)
  show "captions (message_event (BlobData b) s) = captions s"
    by (simp add: message_event_def)
  show "caption_suffix [] = []" by (simp add: caption_suffix_def)
  show "\<exists>suffix. captions (step (SocketMessage k d) s) = captions s @ suffix"
  proof (cases d)
    case (TextData m')
    then show ?thesis
      by (simp add: message_event_def onmessage_text del: onmessage.simps)
  next
    case (BlobData b')
    then show ?thesis by (simp add: message_event_def)
  qed
qed

section \<open>The recording format\<close>

lemma select_type_find:
  "select_type p ts = (case List.find p ts of Some t \<Rightarrow> t | None \<Rightarrow> '''')"
  by (induction ts) auto

text \<open>
  Claim C9: the selected type is the first entry of the preference list that the browser
  reports as supported, and the recorder gets that type; when no entry is supported the
  selection stays empty and the recorder is constructed without a MIME type, that is, with
  the browser's default format.
\<close>

theorem select_type_first_supported:
  "supportedTypes =
     [''audio/webm;codecs=opus'', ''audio/webm'', ''audio/mp4;codecs=mp4a.40.2'',
      ''audio/ogg;codecs=opus''] \<and>
   select_type p supportedTypes =
     (case List.find p supportedTypes of Some t \<Rightarrow> t | None \<Rightarrow> '''') \<and>
   mimeType (new_recorder p) = List.find p supportedTypes \<and>
   (\<exists>r. mediaRecorder (mic_granted supported s) = Some r \<and>
        mimeType r = List.find (\<lambda>t. t \<in> set supported) supportedTypes)"
  by (simp add: select_type_find new_recorder_def supportedTypes_def Let_def
      mic_granted_def recorder_start_def)

section \<open>What every reachable state of the page satisfies\<close>

lemma cleanup_ws [simp]: "ws (cleanup s) = None"
  by (simp add: cleanup_def Let_def)

lemma cleanup_sockets [simp]: "sockets (cleanup s) = sockets s"
  by (simp add: cleanup_def Let_def cleanup_socket_def cleanup_stream_def cleanup_recorder_def
      ws_send_def readyState_def split: option.splits ready_state.splits)

lemma cleanup_reading [simp]: "reading (cleanup s) = reading s"
  by (simp add: cleanup_def Let_def cleanup_socket_def cleanup_stream_def cleanup_recorder_def
      ws_send_def readyState_def split: option.splits ready_state.splits)

lemma cleanup_wire:
  "wire (cleanup s) =
     (case ws s of
        Some k \<Rightarrow> if readyState s k = Some OPEN
                  then wire s @ [(k, TextFrame (utf16 ''END''))] else wire s
      | None \<Rightarrow> wire s)"
  by (auto simp add: cleanup_def Let_def cleanup_socket_def cleanup_stream_def cleanup_recorder_def
      ws_send_def readyState_def split: option.splits ready_state.splits)

lemma cleanup_mediaRecorder:
  "mediaRecorder (cleanup s) = Some r \<Longrightarrow>
     \<exists>r0. mediaRecorder s = Some r0 \<and> timeslice r = timeslice r0"
  by (auto simp add: cleanup_def Let_def cleanup_socket_def cleanup_stream_def cleanup_recorder_def
      ws_send_def readyState_def split: option.splits ready_state.splits if_splits)

lemma readyState_cleanup [simp]: "readyState (cleanup s) k = readyState s k"
  by (simp add: readyState_def)

lemma consistent_cleanup: "consistent s \<Longrightarrow> consistent (cleanup s)"
  unfolding consistent_def
  by (auto simp: cleanup_wire readyState_def dest: cleanup_mediaRecorder split: option.splits)

lemma consistent_status [simp]: "consistent (s\<lparr>status := x\<rparr>) = consistent s"
  by (simp add: consistent_def)

lemma consistent_awaitingMic [simp]: "consistent (s\<lparr>awaitingMic := x\<rparr>) = consistent s"
  by (simp add: consistent_def)

lemma consistent_step: "consistent s \<Longrightarrow> consistent (step e s)"
proof (cases e)
  case StartClickThrows
  assume "consistent s"
  then have "consistent (s\<lparr>startDisabled := True, stopDisabled := False, captions := [],
      status := InitializationError\<rparr>)"
    by (simp add: consistent_def)
  then show ?thesis using StartClickThrows \<open>consistent s\<close>
    by (simp add: start_click_failed_def consistent_cleanup)
next
  case StartClick
  assume "consistent s"
  then show ?thesis using StartClick
    by (auto simp: consistent_def start_click_def less_Suc_eq)
next
  case (ChunkRead i)
  assume "consistent s"
  then show ?thesis using ChunkRead
    by (auto simp: consistent_def chunk_read_def send_chunk_def ws_send_def readyState_def remove_nth_def
        Let_def dest: in_set_takeD in_set_dropD split: option.splits ready_state.splits if_splits)
next
  case (ChunkReadFailed i)
  assume "consistent s"
  then show ?thesis using ChunkReadFailed
    by (auto simp: consistent_def remove_nth_def dest: in_set_takeD in_set_dropD)
next
  case (MicGranted sup)
  assume "consistent s"
  then show ?thesis using MicGranted
    by (auto simp: consistent_def mic_granted_def recorder_start_def)
next
  case (DataAvailable c)
  assume "consistent s"
  then show ?thesis using DataAvailable
    by (auto simp: consistent_def ondataavailable_def data_guard_def)
next
  case (SocketMessage k d)
  assume "consistent s"
  then show ?thesis using SocketMessage
    by (auto simp: consistent_def message_event_def split: sum.splits)
next
  case CloseTimer
  assume "consistent s"
  then show ?thesis using CloseTimer
    by (auto simp: consistent_def close_timer_def ws_close_def split: option.splits)
next
  case (SocketClose k)
  assume "consistent s"
  then have "consistent (s\<lparr>sockets := (sockets s)[k := CLOSED]\<rparr>)" by (simp add: consistent_def)
  then show ?thesis using SocketClose \<open>consistent s\<close>
    by (simp add: onclose_def consistent_cleanup)
next
  case StopClick
  assume "consistent s"
  then show ?thesis using StopClick by (simp add: stop_click_def consistent_cleanup)
next
  case BeforeUnload
  assume "consistent s"
  then show ?thesis using BeforeUnload by (simp add: beforeunload_def consistent_cleanup)
next
  case MicDenied
  assume "consistent s"
  then show ?thesis using MicDenied by (simp add: mic_denied_def consistent_cleanup)
next
  case (SocketOpen k)
  assume "consistent s"
  then show ?thesis using SocketOpen by (auto simp: consistent_def)
next
  case (SocketError k)
  assume "consistent s"
  then show ?thesis using SocketError by simp
next
  case RecorderStart
  assume "consistent s"
  then show ?thesis using RecorderStart by (auto simp: consistent_def onstart_def)
next
  case RecorderStop
  assume "consistent s"
  then show ?thesis using RecorderStop by (auto simp: consistent_def onstop_def split: option.splits)
next
  case RecorderErrorEvent
  assume "consistent s"
  then show ?thesis using RecorderErrorEvent by simp
qed

lemma consistent_run: "consistent s \<Longrightarrow> consistent (run evs s)"
  by (induction evs arbitrary: s) (simp_all add: consistent_step)

lemma page_loaded_consistent: "page_loaded s \<Longrightarrow> consistent s"
  by (simp add: page_loaded_def consistent_def)

lemma cleanup_wire_cases:
  "wire (cleanup s) = wire s \<or>
   (\<exists>k f. ws s = Some k \<and> k < length (sockets s) \<and> wire (cleanup s) = wire s @ [(k, f)])"
  by (auto simp: cleanup_wire readyState_def split: option.splits)

lemma step_wire:
  "wire (step e s) = wire s \<or>
   (\<exists>k f. ws s = Some k \<and> k < length (sockets s) \<and> wire (step e s) = wire s @ [(k, f)])"
proof (cases e)
  case StartClick
  then show ?thesis by (simp add: start_click_def)
next
  case StartClickThrows
  then show ?thesis
    using cleanup_wire_cases [of "s\<lparr>startDisabled := True, stopDisabled := False, captions := [],
      status := InitializationError\<rparr>"]
    by (simp add: start_click_failed_def)
next
  case StopClick
  then show ?thesis
    using cleanup_wire_cases [of "s\<lparr>status := Stopping\<rparr>"] by (simp add: stop_click_def)
next
  case BeforeUnload
  then show ?thesis using cleanup_wire_cases [of s] by (simp add: beforeunload_def)
next
  case (SocketOpen j)
  then show ?thesis by simp
next
  case (SocketMessage j d)
  then show ?thesis by (simp add: message_event_def split: sum.splits)
next
  case (SocketError j)
  then show ?thesis by simp
next
  case (SocketClose j)
  then show ?thesis
    using cleanup_wire_cases [of "s\<lparr>sockets := (sockets s)[j := CLOSED], status := Disconnected\<rparr>"]
    by (simp add: onclose_def)
next
  case (MicGranted sup)
  then show ?thesis by (simp add: mic_granted_def)
next
  case MicDenied
  then show ?thesis
    using cleanup_wire_cases [of "s\<lparr>awaitingMic := awaitingMic s - 1, status := MicrophoneAccessError\<rparr>"]
    by (simp add: mic_denied_def)
next
  case RecorderStart
  then show ?thesis by (simp add: onstart_def)
next
  case (DataAvailable c)
  then show ?thesis by (simp add: ondataavailable_def)
next
  case (ChunkRead i)
  then show ?thesis
    by (auto simp: chunk_read_def send_chunk_def ws_send_def readyState_def Let_def
        split: option.splits ready_state.splits if_splits)
next
  case (ChunkReadFailed i)
  then show ?thesis by simp
next
  case RecorderStop
  then show ?thesis by (simp add: onstop_def split: option.splits)
next
  case RecorderErrorEvent
  then show ?thesis by simp
next
  case CloseTimer
  then show ?thesis by (simp add: close_timer_def ws_close_def split: option.splits)
qed

lemma cleanup_keeps_other_socket:
  "k < length (sockets s) \<Longrightarrow> ws (cleanup s) \<noteq> Some k \<and> k < length (sockets (cleanup s))"
  by simp

lemma step_keeps_other_socket:
  assumes "ws s \<noteq> Some k" and "k < length (sockets s)"
  shows "ws (step e s) \<noteq> Some k \<and> k < length (sockets (step e s))"
proof (cases e)
  case StartClick
  then show ?thesis using assms by (auto simp: start_click_def)
next
  case StartClickThrows
  then show ?thesis using assms by (simp add: start_click_failed_def)
next
  case StopClick
  then show ?thesis using assms by (simp add: stop_click_def)
next
  case BeforeUnload
  then show ?thesis using assms by (simp add: beforeunload_def)
next
  case (SocketOpen j)
  then show ?thesis using assms by simp
next
  case (SocketMessage j d)
  then show ?thesis using assms by (simp add: message_event_def split: sum.splits)
next
  case (SocketError j)
  then show ?thesis using assms by simp
next
  case (SocketClose j)
  then show ?thesis using assms by (simp add: onclose_def)
next
  case (MicGranted sup)
  then show ?thesis using assms by (simp add: mic_granted_def)
next
  case MicDenied
  then show ?thesis using assms by (simp add: mic_denied_def)
next
  case RecorderStart
  then show ?thesis using assms by (simp add: onstart_def)
next
  case (DataAvailable c)
  then show ?thesis using assms by (simp add: ondataavailable_def)
next
  case (ChunkRead i)
  then show ?thesis using assms
    by (auto simp: chunk_read_def send_chunk_def ws_send_def readyState_def Let_def
        split: option.splits ready_state.splits)
next
  case (ChunkReadFailed i)
  then show ?thesis using assms by simp
next
  case RecorderStop
  then show ?thesis using assms by (simp add: onstop_def split: option.splits)
next
  case RecorderErrorEvent
  then show ?thesis using assms by simp
next
  case CloseTimer
  then show ?thesis using assms
    by (auto simp: close_timer_def ws_close_def readyState_def split: option.splits)
qed

lemma frames_on_append [simp]:
  "frames_on k (s\<lparr>wire := wire s @ [(j, f)]\<rparr>) = frames_on k s @ (if j = k then [f] else [])"
  by (simp add: frames_on_def)

lemma frames_on_wire_eq: "wire t = wire s \<Longrightarrow> frames_on k t = frames_on k s"
  by (simp add: frames_on_def)

lemma frames_on_wire_snoc:
  "wire t = wire s @ [(j, f)] \<Longrightarrow> frames_on k t = frames_on k s @ (if j = k then [f] else [])"
  by (simp add: frames_on_def)

lemma step_frames_other_socket:
  assumes "ws s \<noteq> Some k"
  shows "frames_on k (step e s) = frames_on k s"
proof -
  from step_wire [of e s] show ?thesis
  proof (elim disjE exE conjE)
    assume "wire (step e s) = wire s"
    then show ?thesis by (rule frames_on_wire_eq)
  next
    fix j f
    assume j: "ws s = Some j" and w: "wire (step e s) = wire s @ [(j, f)]"
    from j assms have "j \<noteq> k" by auto
    with frames_on_wire_snoc [OF w, of k] show ?thesis by simp
  qed
qed

lemma run_frames_other_socket:
  "ws s \<noteq> Some k \<Longrightarrow> k < length (sockets s) \<Longrightarrow> frames_on k (run evs s) = frames_on k s"
proof (induction evs arbitrary: s)
  case Nil
  then show ?case by simp
next
  case (Cons e evs)
  from Cons.prems have "ws (step e s) \<noteq> Some k" "k < length (sockets (step e s))"
    using step_keeps_other_socket by blast+
  then have "frames_on k (run evs (step e s)) = frames_on k (step e s)"
    by (rule Cons.IH)
  with Cons.prems show ?case by (simp add: step_frames_other_socket)
qed

lemma binary_then_any_end_last:
  "\<forall>f\<in>set fs. \<exists>b. f = BinaryFrame b \<Longrightarrow> end_last (fs @ gs) = end_last gs"
proof (induction fs)
  case Nil
  then show ?case by simp
next
  case (Cons f fs)
  then obtain b where "f = BinaryFrame b" by auto
  with Cons show ?case by simp
qed

lemma consistent_current_socket_binary:
  assumes "consistent s" and "ws s = Some k"
  shows "\<forall>f\<in>set (frames_on k s). \<exists>b. f = BinaryFrame b"
  using assms by (auto simp: consistent_def frames_on_def)

lemma binary_frames_map:
  "\<forall>f\<in>set fs. \<exists>b. f = BinaryFrame b \<Longrightarrow> \<exists>bs. fs = map BinaryFrame bs"
proof (induction fs)
  case Nil
  then show ?case by simp
next
  case (Cons f fs)
  then obtain b bs where "f = BinaryFrame b" "fs = map BinaryFrame bs" by auto
  then have "f # fs = map BinaryFrame (b # bs)" by simp
  then show ?case by (rule exI [of _ "b # bs"])
qed

lemma end_last_step:
  assumes "consistent s" and "end_last (frames_on k s)"
  shows "end_last (frames_on k (step e s))"
proof -
  from step_wire [of e s] show ?thesis
  proof (elim disjE exE conjE)
    assume "wire (step e s) = wire s"
    then have "frames_on k (step e s) = frames_on k s" by (rule frames_on_wire_eq)
    then show ?thesis using assms(2) by simp
  next
    fix j f
    assume j: "ws s = Some j" and w: "wire (step e s) = wire s @ [(j, f)]"
    note snoc = frames_on_wire_snoc [OF w, of k]
    show ?thesis
    proof (cases "j = k")
      case True
      from assms(1) j have "\<forall>g\<in>set (frames_on j s). \<exists>b. g = BinaryFrame b"
        by (rule consistent_current_socket_binary)
      then have "end_last (frames_on j s @ [f]) = end_last [f]"
        by (rule binary_then_any_end_last)
      moreover have "end_last [f]" by (cases f) simp_all
      ultimately show ?thesis using snoc True by simp
    next
      case False
      with snoc assms(2) show ?thesis by simp
    qed
  qed
qed

lemma end_last_run:
  "consistent s \<Longrightarrow> end_last (frames_on k s) \<Longrightarrow> end_last (frames_on k (run evs s))"
  by (induction evs arbitrary: s) (simp_all add: end_last_step consistent_step)

lemma cleanup_ws_none: "ws s = None \<Longrightarrow> wire (cleanup s) = wire s"
  by (simp add: cleanup_wire)

lemma step_ws_none:
  assumes "ws s = None" and "e \<noteq> StartClick"
  shows "ws (step e s) = None \<and> wire (step e s) = wire s"
proof (cases e)
  case StartClick
  then show ?thesis using assms by simp
next
  case StartClickThrows
  then show ?thesis using assms by (simp add: start_click_failed_def cleanup_ws_none)
next
  case StopClick
  then show ?thesis using assms by (simp add: stop_click_def cleanup_ws_none)
next
  case BeforeUnload
  then show ?thesis using assms by (simp add: beforeunload_def cleanup_ws_none)
next
  case (SocketOpen j)
  then show ?thesis using assms by simp
next
  case (SocketMessage j d)
  then show ?thesis using assms by (simp add: message_event_def split: sum.splits)
next
  case (SocketError j)
  then show ?thesis using assms by simp
next
  case (SocketClose j)
  then show ?thesis using assms by (simp add: onclose_def cleanup_ws_none)
next
  case (MicGranted sup)
  then show ?thesis using assms by (simp add: mic_granted_def)
next
  case MicDenied
  then show ?thesis using assms by (simp add: mic_denied_def cleanup_ws_none)
next
  case RecorderStart
  then show ?thesis using assms by (simp add: onstart_def)
next
  case (DataAvailable c)
  then show ?thesis using assms by (simp add: ondataavailable_def)
next
  case (ChunkRead i)
  then show ?thesis using assms by (simp add: chunk_read_def send_chunk_def Let_def)
next
  case (ChunkReadFailed i)
  then show ?thesis using assms by simp
next
  case RecorderStop
  then show ?thesis using assms by (simp add: onstop_def split: option.splits)
next
  case RecorderErrorEvent
  then show ?thesis using assms by simp
next
  case CloseTimer
  then show ?thesis using assms by (simp add: close_timer_def)
qed

lemma run_ws_none:
  "ws s = None \<Longrightarrow> StartClick \<notin> set evs \<Longrightarrow> ws (run evs s) = None \<and> wire (run evs s) = wire s"
proof (induction evs arbitrary: s)
  case Nil
  then show ?case by simp
next
  case (Cons e evs)
  from Cons.prems have "ws (step e s) = None \<and> wire (step e s) = wire s"
    using step_ws_none [of s e] by auto
  moreover from Cons.prems have "StartClick \<notin> set evs" by simp
  ultimately show ?case using Cons.IH [of "step e s"] by simp
qed

lemma run_append: "run (es @ fs) s = run fs (run es s)"
  by (induction es arbitrary: s) simp_all

lemma chunk_read_resumed_send:
  "chunk_read i s =
     (case resumed_send i s of Inr s2 \<Rightarrow> s2
      | Inl e \<Rightarrow> s\<lparr>reading := remove_nth i (reading s)\<rparr>)"
  by (simp add: chunk_read_def resumed_send_def Let_def)

lemma set_remove_nth: "b \<in> set (remove_nth i xs) \<Longrightarrow> b \<in> set xs"
  by (auto simp: remove_nth_def dest: in_set_takeD in_set_dropD)

lemma cleanup_wire_binary:
  "(k, BinaryFrame b) \<in> set (wire (cleanup s)) \<Longrightarrow> (k, BinaryFrame b) \<in> set (wire s)"
  by (auto simp: cleanup_wire split: option.splits if_splits)

lemma step_reading:
  assumes "b \<in> set (reading (step e s))"
  shows "b \<in> set (reading s) \<or> (e = DataAvailable b \<and> data_guard b s)"
proof (cases e)
  case StartClick
  with assms show ?thesis by (simp add: start_click_def split: if_splits)
next
  case StartClickThrows
  with assms show ?thesis by (simp add: start_click_failed_def split: if_splits)
next
  case StopClick
  with assms show ?thesis by (simp add: stop_click_def split: if_splits)
next
  case BeforeUnload
  with assms show ?thesis by (simp add: beforeunload_def split: if_splits)
next
  case (SocketOpen j)
  with assms show ?thesis by (simp split: if_splits)
next
  case (SocketMessage j d)
  with assms show ?thesis by (simp add: message_event_def split: if_splits sum.splits)
next
  case (SocketError j)
  with assms show ?thesis by (simp split: if_splits)
next
  case (SocketClose j)
  with assms show ?thesis by (simp add: onclose_def split: if_splits)
next
  case (MicGranted sup)
  with assms show ?thesis by (simp add: mic_granted_def split: if_splits)
next
  case MicDenied
  with assms show ?thesis by (simp add: mic_denied_def split: if_splits)
next
  case RecorderStart
  with assms show ?thesis by (simp add: onstart_def split: if_splits)
next
  case (DataAvailable c)
  with assms show ?thesis by (auto simp: ondataavailable_def split: if_splits)
next
  case (ChunkRead i)
  with assms show ?thesis
    by (auto simp: chunk_read_def send_chunk_def ws_send_def Let_def
        dest: set_remove_nth split: if_splits option.splits ready_state.splits)
next
  case (ChunkReadFailed i)
  with assms show ?thesis by (auto dest: set_remove_nth split: if_splits)
next
  case RecorderStop
  with assms show ?thesis by (simp add: onstop_def split: if_splits option.splits)
next
  case RecorderErrorEvent
  with assms show ?thesis by (simp split: if_splits)
next
  case CloseTimer
  with assms show ?thesis
    by (simp add: close_timer_def ws_close_def split: if_splits option.splits)
qed

lemma step_wire_binary:
  assumes "(k, BinaryFrame b) \<in> set (wire (step e s))"
  shows "(k, BinaryFrame b) \<in> set (wire s) \<or> b \<in> set (reading s)"
proof (cases e)
  case StartClick
  with assms show ?thesis by (simp add: start_click_def split: if_splits)
next
  case StartClickThrows
  with assms show ?thesis
    by (auto simp: start_click_failed_def dest!: cleanup_wire_binary split: if_splits)
next
  case StopClick
  with assms show ?thesis
    by (auto simp: stop_click_def dest!: cleanup_wire_binary split: if_splits)
next
  case BeforeUnload
  with assms show ?thesis
    by (auto simp: beforeunload_def dest!: cleanup_wire_binary split: if_splits)
next
  case (SocketOpen j)
  with assms show ?thesis by (simp split: if_splits)
next
  case (SocketMessage j d)
  with assms show ?thesis by (simp add: message_event_def split: if_splits sum.splits)
next
  case (SocketError j)
  with assms show ?thesis by (simp split: if_splits)
next
  case (SocketClose j)
  with assms show ?thesis
    by (auto simp: onclose_def dest!: cleanup_wire_binary split: if_splits)
next
  case (MicGranted sup)
  with assms show ?thesis by (simp add: mic_granted_def split: if_splits)
next
  case MicDenied
  with assms show ?thesis
    by (auto simp: mic_denied_def dest!: cleanup_wire_binary split: if_splits)
next
  case RecorderStart
  with assms show ?thesis by (simp add: onstart_def split: if_splits)
next
  case (DataAvailable c)
  with assms show ?thesis by (simp add: ondataavailable_def split: if_splits)
next
  case (ChunkRead i)
  with assms show ?thesis
    by (auto simp: chunk_read_def send_chunk_def ws_send_def Let_def
        split: if_splits option.splits ready_state.splits)
next
  case (ChunkReadFailed i)
  with assms show ?thesis by (simp split: if_splits)
next
  case RecorderStop
  with assms show ?thesis by (simp add: onstop_def split: if_splits option.splits)
next
  case RecorderErrorEvent
  with assms show ?thesis by (simp split: if_splits)
next
  case CloseTimer
  with assms show ?thesis
    by (simp add: close_timer_def ws_close_def split: if_splits option.splits)
qed

lemma passed_guard_snoc:
  assumes "passed_guard evs page b"
  shows "passed_guard (evs @ [e]) page b"
proof -
  from assms obtain n where n: "n < length evs" "evs ! n = DataAvailable b"
      "data_guard b (run (take n evs) page)"
    by (auto simp: passed_guard_def)
  then have "n < length (evs @ [e])" "(evs @ [e]) ! n = DataAvailable b"
      "data_guard b (run (take n (evs @ [e])) page)"
    by (simp_all add: nth_append)
  then show ?thesis unfolding passed_guard_def by blast
qed

lemma passed_guard_new:
  assumes "data_guard b (run evs page)"
  shows "passed_guard (evs @ [DataAvailable b]) page b"
proof -
  have "length evs < length (evs @ [DataAvailable b])"
      "(evs @ [DataAvailable b]) ! length evs = DataAvailable b"
      "data_guard b (run (take (length evs) (evs @ [DataAvailable b])) page)"
    using assms by simp_all
  then show ?thesis unfolding passed_guard_def by blast
qed

lemma chunks_passed_guard:
  assumes "reading page = []" and "wire page = []"
  shows "(\<forall>b\<in>set (reading (run evs page)). passed_guard evs page b) \<and>
         (\<forall>k b. (k, BinaryFrame b) \<in> set (wire (run evs page)) \<longrightarrow> passed_guard evs page b)"
proof (induction evs rule: rev_induct)
  case Nil
  with assms show ?case by simp
next
  case (snoc e evs)
  let ?s = "run evs page"
  have r: "run (evs @ [e]) page = step e ?s" by (simp add: run_append)
  have rd: "passed_guard (evs @ [e]) page b" if "b \<in> set (reading (step e ?s))" for b
  proof -
    from step_reading [OF that] show ?thesis
    proof
      assume "b \<in> set (reading ?s)"
      with snoc.IH have "passed_guard evs page b" by blast
      then show ?thesis by (rule passed_guard_snoc)
    next
      assume "e = DataAvailable b \<and> data_guard b ?s"
      then show ?thesis using passed_guard_new [of b evs page] by simp
    qed
  qed
  have wr: "passed_guard (evs @ [e]) page b" if "(k, BinaryFrame b) \<in> set (wire (step e ?s))"
    for k b
  proof -
    from step_wire_binary [OF that] have "passed_guard evs page b"
      using snoc.IH by blast
    then show ?thesis by (rule passed_guard_snoc)
  qed
  from rd wr show ?case unfolding r by blast
qed



section \<open>What the client sends\<close>

text \<open>
  Claim C1: take any state the page can reach in which \<^verbatim>\<open>ws\<close> names an open socket \<open>k\<close>.
  Everything sent on \<open>k\<close> so far is audio. \<^verbatim>\<open>cleanup\<close> then sends the text END on \<open>k\<close>
  once, after that audio, and whatever happens afterwards (chunks still arriving, pending
  handlers resuming, timers, further clicks and sessions) nothing more is ever sent on
  \<open>k\<close>: the frames of that connection stay the audio followed by the one END. In every
  reachable state each connection carries audio frames followed by at most one text frame.
\<close>

theorem end_sent_once_after_last_audio:
  assumes "page_loaded page"
    and "ws (run evs page) = Some k"
    and "readyState (run evs page) k = Some OPEN"
  shows "(\<exists>audio. frames_on k (run evs page) = map BinaryFrame audio) \<and>
         frames_on k (cleanup (run evs page)) =
           frames_on k (run evs page) @ [TextFrame (utf16 ''END'')] \<and>
         frames_on k (run evs' (cleanup (run evs page))) =
           frames_on k (run evs page) @ [TextFrame (utf16 ''END'')] \<and>
         end_last (frames_on j (run evs page))"
proof -
  let ?s = "run evs page"
  from assms(1) have c0: "consistent page" by (rule page_loaded_consistent)
  then have c: "consistent ?s" by (rule consistent_run)
  from assms(3) have k: "k < length (sockets ?s)"
    by (simp add: readyState_def split: if_splits)
  from c assms(2) have "\<forall>f\<in>set (frames_on k ?s). \<exists>b. f = BinaryFrame b"
    by (rule consistent_current_socket_binary)
  then have audio: "\<exists>audio. frames_on k ?s = map BinaryFrame audio"
    by (rule binary_frames_map)
  from assms(2,3) have "wire (cleanup ?s) = wire ?s @ [(k, TextFrame (utf16 ''END''))]"
    by (simp add: cleanup_wire)
  from frames_on_wire_snoc [OF this, of k]
  have ce: "frames_on k (cleanup ?s) = frames_on k ?s @ [TextFrame (utf16 ''END'')]" by simp
  have "frames_on k (run evs' (cleanup ?s)) = frames_on k (cleanup ?s)"
    by (rule run_frames_other_socket) (use k in simp_all)
  with ce have r: "frames_on k (run evs' (cleanup ?s)) =
      frames_on k ?s @ [TextFrame (utf16 ''END'')]" by simp
  from assms(1) have "end_last (frames_on j page)" by (simp add: page_loaded_def frames_on_def)
  with c0 have "end_last (frames_on j ?s)" by (rule end_last_run)
  with audio ce r show ?thesis by simp
qed

theorem end_sent_once_after_last_audio_witness:
  "page_loaded fresh_page \<and>
   ws (run [StartClick, SocketOpen 0, MicGranted [''audio/webm''], RecorderStart,
            DataAvailable [1, 2], ChunkRead 0, DataAvailable [3]] fresh_page) = Some 0 \<and>
   readyState (run [StartClick, SocketOpen 0, MicGranted [''audio/webm''], RecorderStart,
            DataAvailable [1, 2], ChunkRead 0, DataAvailable [3]] fresh_page) 0 = Some OPEN \<and>
   frames_on 0 (run [DataAvailable [4], ChunkRead 0, CloseTimer, StartClick, SocketOpen 1, ChunkRead 0]
     (cleanup (run [StartClick, SocketOpen 0, MicGranted [''audio/webm''], RecorderStart,
            DataAvailable [1, 2], ChunkRead 0, DataAvailable [3]] fresh_page))) =
     [BinaryFrame [1, 2], TextFrame (utf16 ''END'')]"
proof -
  let ?evs = "[StartClick, SocketOpen 0, MicGranted [''audio/webm''], RecorderStart,
            DataAvailable [1, 2], ChunkRead 0, DataAvailable [3]]"
  have h1: "page_loaded fresh_page" by (simp add: page_loaded_def fresh_page_def)
  have h2: "ws (run ?evs fresh_page) = Some 0" by (simp add: run_defs)
  have h3: "readyState (run ?evs fresh_page) 0 = Some OPEN" by (simp add: run_defs)
  have before: "frames_on 0 (run ?evs fresh_page) = [BinaryFrame [1, 2]]"
    by (simp add: run_defs)
  from end_sent_once_after_last_audio [OF h1 h2 h3,
      of "[DataAvailable [4], ChunkRead 0, CloseTimer, StartClick, SocketOpen 1, ChunkRead 0]"]
  have "frames_on 0 (run [DataAvailable [4], ChunkRead 0, CloseTimer, StartClick, SocketOpen 1, ChunkRead 0]
        (cleanup (run ?evs fresh_page))) =
      frames_on 0 (run ?evs fresh_page) @ [TextFrame (utf16 ''END'')]"
    by (rule conjunct1 [OF conjunct2 [OF conjunct2]])
  with before h1 h2 h3 show ?thesis by (simp only: append.simps simp_thms)
qed

text \<open>
  Claim C2: every frame the client has sent, in any reachable state, is either a text
  frame, and then it is END, or a binary frame, and then it is a non-empty audio chunk. So
  the frame type alone tells the Control Signal from audio, whatever bytes the audio
  holds. The data handler only ever sends its chunk as a binary frame, and \<^verbatim>\<open>cleanup\<close>
  only ever sends the text END.
\<close>

theorem audio_binary_control_text:
  "(page_loaded page \<longrightarrow> (k, f) \<in> set (wire (run evs page)) \<longrightarrow>
      is_text_frame f = (f = TextFrame (utf16 ''END'')) \<and>
      (is_text_frame f \<or> (\<exists>b. f = BinaryFrame b \<and> b \<noteq> []))) \<and>
   (send_chunk arrayBuffer s = Inr s' \<longrightarrow>
      wire s' = wire s \<or> (\<exists>j. wire s' = wire s @ [(j, BinaryFrame arrayBuffer)])) \<and>
   (wire (cleanup s) = wire s \<or>
      (\<exists>j. wire (cleanup s) = wire s @ [(j, TextFrame (utf16 ''END''))]))"
proof (intro conjI impI)
  assume "page_loaded page" and in_wire: "(k, f) \<in> set (wire (run evs page))"
  then have "consistent (run evs page)" by (simp add: page_loaded_consistent consistent_run)
  with in_wire have "(\<exists>b. f = BinaryFrame b \<and> b \<noteq> []) \<or> f = TextFrame (utf16 ''END'')"
    unfolding consistent_def by fastforce
  then show "is_text_frame f = (f = TextFrame (utf16 ''END''))"
    and "is_text_frame f \<or> (\<exists>b. f = BinaryFrame b \<and> b \<noteq> [])" by auto
next
  assume "send_chunk arrayBuffer s = Inr s'"
  then show "wire s' = wire s \<or> (\<exists>j. wire s' = wire s @ [(j, BinaryFrame arrayBuffer)])"
    by (auto simp: send_chunk_def ws_send_def split: option.splits ready_state.splits)
next
  show "wire (cleanup s) = wire s \<or>
      (\<exists>j. wire (cleanup s) = wire s @ [(j, TextFrame (utf16 ''END''))])"
    by (auto simp: cleanup_wire split: option.splits)
qed

theorem audio_binary_control_text_witness:
  "page_loaded fresh_page \<and>
   (0, BinaryFrame [0x45, 0x4E, 0x44]) \<in> set (wire (run [StartClick, SocketOpen 0, MicGranted [],
       DataAvailable [0x45, 0x4E, 0x44], ChunkRead 0, StopClick] fresh_page)) \<and>
   send_chunk [0x45, 0x4E, 0x44] (run [StartClick, SocketOpen 0] fresh_page) =
     Inr ((run [StartClick, SocketOpen 0] fresh_page)\<lparr>wire := [(0, BinaryFrame [0x45, 0x4E, 0x44])]\<rparr>) \<and>
   \<not> is_text_frame (BinaryFrame [0x45, 0x4E, 0x44]) \<and>
   BinaryFrame [0x45, 0x4E, 0x44] \<noteq> TextFrame (utf16 ''END'')"
  using audio_binary_control_text [where page = fresh_page and k = 0
      and f = "BinaryFrame [0x45, 0x4E, 0x44]"
      and evs = "[StartClick, SocketOpen 0, MicGranted [],
       DataAvailable [0x45, 0x4E, 0x44], ChunkRead 0, StopClick]"
      and arrayBuffer = "[0x45, 0x4E, 0x44]"
      and s = "run [StartClick, SocketOpen 0] fresh_page"
      and s' = "(run [StartClick, SocketOpen 0] fresh_page)\<lparr>wire := [(0, BinaryFrame [0x45, 0x4E, 0x44])]\<rparr>"]
  by (simp add: run_defs page_loaded_def)

text \<open>
  Claim C6, as it is stated, fails. The data handler reads the global \<^verbatim>\<open>ws\<close> when
  it resumes, not the socket of the session that produced the chunk. Here a chunk is
  waiting for its \<^verbatim>\<open>arrayBuffer()\<close> when \<^verbatim>\<open>cleanup\<close> runs; Start is clicked again and the
  new socket opens before the read finishes; the handler then sends the chunk, on the new
  connection.
\<close>

theorem pending_chunk_sent_after_restart_counterexample:
  "reading (cleanup (run [StartClick, SocketOpen 0, MicGranted [], RecorderStart,
                          DataAvailable [7]] fresh_page)) = [[7]] \<and>
   wire (cleanup (run [StartClick, SocketOpen 0, MicGranted [], RecorderStart,
                          DataAvailable [7]] fresh_page)) = [(0, TextFrame (utf16 ''END''))] \<and>
   wire (run [StartClick, SocketOpen 1, ChunkRead 0]
          (cleanup (run [StartClick, SocketOpen 0, MicGranted [], RecorderStart,
                          DataAvailable [7]] fresh_page))) =
     [(0, TextFrame (utf16 ''END'')), (1, BinaryFrame [7])]"
  by (simp add: run_defs)

text \<open>
  Claim C6, amended: \<^verbatim>\<open>cleanup\<close> always leaves \<^verbatim>\<open>ws\<close> null. A data handler that starts in
  that state skips its chunk and changes nothing, and a pending one that resumes in that
  state throws into its \<^verbatim>\<open>catch\<close> and sends nothing. As long as Start is not clicked again
  nothing at all is sent after \<^verbatim>\<open>cleanup\<close>, and in every case nothing is sent any more on
  a connection that existed when \<^verbatim>\<open>cleanup\<close> ran.
\<close>

theorem last_chunk_dropped_after_cleanup:
  "ws (cleanup s) = None \<and>
   ondataavailable chunk (cleanup s) = cleanup s \<and>
   wire (chunk_read i (cleanup s)) = wire (cleanup s) \<and>
   (StartClick \<notin> set evs \<longrightarrow> wire (run evs (cleanup s)) = wire (cleanup s)) \<and>
   (k < length (sockets s) \<longrightarrow> frames_on k (run evs (cleanup s)) = frames_on k (cleanup s))"
proof (intro conjI impI)
  show "ws (cleanup s) = None" by simp
  show "ondataavailable chunk (cleanup s) = cleanup s"
    by (simp add: ondataavailable_def data_guard_def)
  show "wire (chunk_read i (cleanup s)) = wire (cleanup s)"
    by (simp add: chunk_read_def send_chunk_def Let_def)
next
  assume "StartClick \<notin> set evs"
  then show "wire (run evs (cleanup s)) = wire (cleanup s)"
    using run_ws_none [of "cleanup s" evs] by simp
next
  assume "k < length (sockets s)"
  then show "frames_on k (run evs (cleanup s)) = frames_on k (cleanup s)"
    by (intro run_frames_other_socket) simp_all
qed

theorem last_chunk_dropped_after_cleanup_witness:
  "StartClick \<notin> set [DataAvailable [9], ChunkRead 0, CloseTimer, RecorderStop] \<and>
   0 < length (sockets (run [StartClick, SocketOpen 0, MicGranted [], DataAvailable [3]] fresh_page)) \<and>
   reading (cleanup (run [StartClick, SocketOpen 0, MicGranted [], DataAvailable [3]] fresh_page)) = [[3]] \<and>
   wire (run [DataAvailable [9], ChunkRead 0, CloseTimer, RecorderStop]
          (cleanup (run [StartClick, SocketOpen 0, MicGranted [], DataAvailable [3]] fresh_page))) =
     [(0, TextFrame (utf16 ''END''))] \<and>
   frames_on 0 (run [DataAvailable [9], ChunkRead 0, CloseTimer, RecorderStop]
          (cleanup (run [StartClick, SocketOpen 0, MicGranted [], DataAvailable [3]] fresh_page))) =
     [TextFrame (utf16 ''END'')]"
  using last_chunk_dropped_after_cleanup [where
      s = "run [StartClick, SocketOpen 0, MicGranted [], DataAvailable [3]] fresh_page"
      and evs = "[DataAvailable [9], ChunkRead 0, CloseTimer, RecorderStop]" and k = 0
      and chunk = "[9]" and i = 0]
  by (simp add: run_defs)

text \<open>
  Claim C7, as it is stated, fails in its last clause. The check is made before the
  \<^verbatim>\<open>await\<close> and the handler calls \<^verbatim>\<open>ws.send\<close> after it without checking again. Here a chunk
  has passed the check and waits for its read when Stop is clicked. If the read finishes
  now, the call is made with \<^verbatim>\<open>ws\<close> null and throws a TypeError; if Start has been clicked
  again and the new socket is still connecting, the call is made on that socket and throws
  InvalidStateError; if the new socket has opened and the 500 ms timer of the earlier
  \<^verbatim>\<open>cleanup\<close> has closed it, the call is made on a closing socket and the chunk is
  discarded.
\<close>

theorem send_called_without_open_socket_counterexample:
  "reading (cleanup (run [StartClick, SocketOpen 0, MicGranted [], DataAvailable [7]] fresh_page))
     = [[7]] \<and>
   ws (cleanup (run [StartClick, SocketOpen 0, MicGranted [], DataAvailable [7]] fresh_page))
     = None \<and>
   resumed_send 0
     (cleanup (run [StartClick, SocketOpen 0, MicGranted [], DataAvailable [7]] fresh_page))
     = Inl TypeError \<and>
   ws (run [StartClick, SocketOpen 0, MicGranted [], DataAvailable [7], StopClick, StartClick]
         fresh_page) = Some 1 \<and>
   readyState (run [StartClick, SocketOpen 0, MicGranted [], DataAvailable [7], StopClick,
         StartClick] fresh_page) 1 = Some CONNECTING \<and>
   resumed_send 0 (run [StartClick, SocketOpen 0, MicGranted [], DataAvailable [7], StopClick,
         StartClick] fresh_page) = Inl InvalidStateError \<and>
   readyState (run [StartClick, SocketOpen 0, MicGranted [], DataAvailable [7], StopClick,
         StartClick, SocketOpen 1, CloseTimer] fresh_page) 1 = Some CLOSING \<and>
   wire (step (ChunkRead 0) (run [StartClick, SocketOpen 0, MicGranted [], DataAvailable [7],
         StopClick, StartClick, SocketOpen 1, CloseTimer] fresh_page)) =
     [(0, TextFrame (utf16 ''END''))]"
  by (simp add: run_defs resumed_send_def)

text \<open>
  Claim C7, amended: the data handler enters its send branch exactly when the chunk is not
  empty and \<^verbatim>\<open>ws\<close> names a socket that is OPEN at the time of the check, and otherwise
  leaves the page as it is. Every audio frame the client ever transmits is not empty and
  belongs to a chunk that passed this check when the recorder delivered it. The call of
  \<^verbatim>\<open>ws.send\<close> is made after the \<^verbatim>\<open>await\<close> on whatever \<^verbatim>\<open>ws\<close> is then, unchecked: with
  \<^verbatim>\<open>ws\<close> null or connecting it throws into the handler's \<^verbatim>\<open>catch\<close>, on a closing or
  closed socket the chunk is discarded, and only on an OPEN socket is it transmitted.
\<close>

theorem data_handler_sends_checked_chunks:
  "ondataavailable chunk s =
     (if 0 < length chunk \<and> (\<exists>k. ws s = Some k \<and> readyState s k = Some OPEN)
      then s\<lparr>reading := reading s @ [chunk]\<rparr> else s) \<and>
   wire (ondataavailable chunk s) = wire s \<and>
   (page_loaded page \<longrightarrow> (k, BinaryFrame b) \<in> set (wire (run evs page)) \<longrightarrow>
      b \<noteq> [] \<and> passed_guard evs page b) \<and>
   resumed_send i s =
     (case ws s of
        None \<Rightarrow> Inl TypeError
      | Some j \<Rightarrow>
          (case readyState s j of
             None \<Rightarrow> Inl TypeError
           | Some CONNECTING \<Rightarrow> Inl InvalidStateError
           | Some OPEN \<Rightarrow>
               Inr (s\<lparr>reading := remove_nth i (reading s),
                      wire := wire s @ [(j, BinaryFrame (reading s ! i))]\<rparr>)
           | Some CLOSING \<Rightarrow> Inr (s\<lparr>reading := remove_nth i (reading s)\<rparr>)
           | Some CLOSED \<Rightarrow> Inr (s\<lparr>reading := remove_nth i (reading s)\<rparr>))) \<and>
   chunk_read i s =
     (case resumed_send i s of Inr s2 \<Rightarrow> s2
      | Inl e \<Rightarrow> s\<lparr>reading := remove_nth i (reading s)\<rparr>)"
proof (intro conjI impI)
  show "ondataavailable chunk s =
     (if 0 < length chunk \<and> (\<exists>k. ws s = Some k \<and> readyState s k = Some OPEN)
      then s\<lparr>reading := reading s @ [chunk]\<rparr> else s)"
    by (auto simp: ondataavailable_def data_guard_def split: option.splits)
  show "wire (ondataavailable chunk s) = wire s" by (simp add: ondataavailable_def)
  show "resumed_send i s =
     (case ws s of
        None \<Rightarrow> Inl TypeError
      | Some j \<Rightarrow>
          (case readyState s j of
             None \<Rightarrow> Inl TypeError
           | Some CONNECTING \<Rightarrow> Inl InvalidStateError
           | Some OPEN \<Rightarrow>
               Inr (s\<lparr>reading := remove_nth i (reading s),
                      wire := wire s @ [(j, BinaryFrame (reading s ! i))]\<rparr>)
           | Some CLOSING \<Rightarrow> Inr (s\<lparr>reading := remove_nth i (reading s)\<rparr>)
           | Some CLOSED \<Rightarrow> Inr (s\<lparr>reading := remove_nth i (reading s)\<rparr>)))"
    by (simp add: resumed_send_def send_chunk_def ws_send_def readyState_def
        split: option.splits ready_state.splits)
  show "chunk_read i s =
     (case resumed_send i s of Inr s2 \<Rightarrow> s2
      | Inl e \<Rightarrow> s\<lparr>reading := remove_nth i (reading s)\<rparr>)"
    by (rule chunk_read_resumed_send)
next
  assume p: "page_loaded page" and in_wire: "(k, BinaryFrame b) \<in> set (wire (run evs page))"
  then have "consistent (run evs page)" by (simp add: page_loaded_consistent consistent_run)
  with in_wire show "b \<noteq> []" unfolding consistent_def by fastforce
  from p have "reading page = []" "wire page = []" by (simp_all add: page_loaded_def)
  from chunks_passed_guard [OF this, of evs] in_wire show "passed_guard evs page b" by blast
qed

theorem data_handler_sends_checked_chunks_witness:
  "page_loaded fresh_page \<and>
   (0, BinaryFrame [5]) \<in> set (wire (run [StartClick, SocketOpen 0, MicGranted [],
       DataAvailable [], DataAvailable [5], ChunkRead 0] fresh_page)) \<and>
   passed_guard [StartClick, SocketOpen 0, MicGranted [],
       DataAvailable [], DataAvailable [5], ChunkRead 0] fresh_page [5] \<and>
   ondataavailable [] (run [StartClick, SocketOpen 0, MicGranted []] fresh_page) =
     run [StartClick, SocketOpen 0, MicGranted []] fresh_page"
  using data_handler_sends_checked_chunks [where page = fresh_page and k = 0 and b = "[5]"
      and i = 0 and chunk = "[]"
      and s = "run [StartClick, SocketOpen 0, MicGranted []] fresh_page"
      and evs = "[StartClick, SocketOpen 0, MicGranted [], DataAvailable [],
       DataAvailable [5], ChunkRead 0]"]
  by (simp add: run_defs page_loaded_def)




section \<open>The final Transcript Unit\<close>

lemma serve_append:
  "serve d t (es @ fs) s = serve d t fs (serve d t es s)"
  by (induction es arbitrary: s) simp_all

lemma complete_in_flight_live:
  "live s \<Longrightarrow> live (complete_in_flight d t s) \<and>
     buffer (complete_in_flight d t s) = buffer s"
  by (auto simp: live_def complete_in_flight_def split: option.splits sum.splits)

lemma controller_recording_event:
  assumes "live s" and "recording_event e"
  shows "live (controller d t e s) \<and>
         buffer (controller d t e s) = buffer s @ fragments_of [e]"
proof (cases e)
  case (Fragment fragment)
  with assms show ?thesis by (auto simp: live_def)
next
  case PeriodicTrigger
  with assms show ?thesis by (auto simp: live_def)
next
  case PassCompleted
  with assms show ?thesis using complete_in_flight_live [of s d t] by simp
qed (use assms in simp_all)

lemma fragments_of_Cons: "fragments_of (e # es) = fragments_of [e] @ fragments_of es"
  by (cases e) simp_all

lemma serve_recording_events:
  "live s \<Longrightarrow> \<forall>e\<in>set body. recording_event e \<Longrightarrow>
   live (serve d t body s) \<and> buffer (serve d t body s) = buffer s @ fragments_of body"
proof (induction body arbitrary: s)
  case Nil
  then show ?case by simp
next
  case (Cons e body)
  from Cons.prems have step: "live (controller d t e s)"
      "buffer (controller d t e s) = buffer s @ fragments_of [e]"
    using controller_recording_event [of s e d t] by simp_all
  from Cons.prems have "\<forall>e\<in>set body. recording_event e" by simp
  with step(1) have "live (serve d t body (controller d t e s)) \<and>
      buffer (serve d t body (controller d t e s)) =
        buffer (controller d t e s) @ fragments_of body"
    by (rule Cons.IH)
  with step(2) show ?case using fragments_of_Cons [of e body] by simp
qed

lemma finalize_live:
  assumes "live s"
  shows "case run_pass d t (buffer s) of
      Inr text \<Rightarrow> phase (finalize d t s) = Closed \<and>
        (\<exists>incs. emitted (finalize d t s) = incs @ [(Final, text)] \<and>
                (\<forall>u\<in>set incs. fst u = Incremental))
    | Inl e \<Rightarrow> phase (finalize d t s) = Errored \<and>
        (\<forall>u\<in>set (emitted (finalize d t s)). fst u = Incremental)"
proof -
  let ?s1 = "complete_in_flight d t (s\<lparr>phase := Finalizing\<rparr>)"
  have b: "buffer ?s1 = buffer s"
    by (simp add: complete_in_flight_def split: option.splits sum.splits)
  have i: "\<forall>u\<in>set (emitted ?s1). fst u = Incremental"
    using assms by (auto simp: live_def complete_in_flight_def split: option.splits sum.splits)
  show ?thesis
  proof (cases "run_pass d t (buffer s)")
    case (Inl e)
    with b i show ?thesis by (simp add: finalize_def Let_def)
  next
    case (Inr out)
    with b have "emitted (finalize d t s) = emitted ?s1 @ [(Final, out)]"
      "phase (finalize d t s) = Closed"
      by (simp_all add: finalize_def Let_def)
    with i Inr show ?thesis by auto
  qed
qed

text \<open>
  Claim C5, as the spec states it, fails on the controller of section 4.4: when the
  finalizing pass fails, here because the decoder rejects the audio, a session of two
  fragments and the Control Signal ends in Errored and no final unit is emitted.
\<close>

theorem no_final_unit_when_decode_fails_counterexample:
  "emitted (serve (\<lambda>b. (None :: unit option)) (\<lambda>w. Some ''text'')
      [TransportOpen, Fragment [1], Fragment [2], ControlSignal] new_session) = [] \<and>
   phase (serve (\<lambda>b. (None :: unit option)) (\<lambda>w. Some ''text'')
      [TransportOpen, Fragment [1], Fragment [2], ControlSignal] new_session) = Errored"
  by (simp add: new_session_def finalize_def complete_in_flight_def run_pass_def)

text \<open>
  Claim C5, amended: for every session that is opened, receives fragments (with any
  incremental passes triggered and completed in between) and then the Control Signal, the
  outcome is decided by the finalizing pass over all the fragments received. If it
  succeeds the session closes normally and its text is the one final unit, emitted last,
  after incremental units only. If it fails the session ends in Errored and no final unit
  is emitted.
\<close>

theorem final_unit_after_control_signal:
  assumes "\<forall>e\<in>set body. recording_event e"
  shows "case run_pass decode transcribe (fragments_of body) of
      Inr text \<Rightarrow>
        phase (serve decode transcribe (TransportOpen # body @ [ControlSignal]) new_session)
          = Closed \<and>
        (\<exists>incs. emitted (serve decode transcribe (TransportOpen # body @ [ControlSignal])
                          new_session) = incs @ [(Final, text)] \<and>
                (\<forall>u\<in>set incs. fst u = Incremental))
    | Inl e \<Rightarrow>
        phase (serve decode transcribe (TransportOpen # body @ [ControlSignal]) new_session)
          = Errored \<and>
        (\<forall>u\<in>set (emitted (serve decode transcribe (TransportOpen # body @ [ControlSignal])
                             new_session)). fst u = Incremental)"
proof -
  let ?opened = "controller decode transcribe TransportOpen new_session"
  let ?s = "serve decode transcribe body ?opened"
  have "live ?opened" by (simp add: live_def new_session_def)
  note sr = serve_recording_events [OF this assms, of decode transcribe]
  from sr have l: "live ?s" by (rule conjunct1)
  from sr have "buffer ?s = buffer ?opened @ fragments_of body" by (rule conjunct2)
  then have b: "buffer ?s = fragments_of body" by (simp add: new_session_def)
  from l have p: "phase ?s = Connected \<or> phase ?s = Recording" by (simp add: live_def)
  have e1: "serve decode transcribe (TransportOpen # body @ [ControlSignal]) new_session =
      controller decode transcribe ControlSignal ?s"
    by (simp add: serve_append del: controller.simps)
  from p have e2: "controller decode transcribe ControlSignal ?s = finalize decode transcribe ?s"
    by auto
  from finalize_live [OF l, of decode transcribe] show ?thesis
    by (simp only: e1 e2 b)
qed

theorem final_unit_after_control_signal_witness:
  "recording_event (Fragment [1]) \<and> recording_event PeriodicTrigger \<and>
   recording_event (Fragment [2]) \<and> recording_event PassCompleted \<and>
   run_pass (\<lambda>b. if b = [] then None else Some (length b)) (\<lambda>n. Some (replicate n CHR ''a''))
     (fragments_of [Fragment [1], PeriodicTrigger, Fragment [2], PassCompleted]) = Inr ''aa'' \<and>
   phase (serve (\<lambda>b. if b = [] then None else Some (length b)) (\<lambda>n. Some (replicate n CHR ''a''))
     (TransportOpen # [Fragment [1], PeriodicTrigger, Fragment [2], PassCompleted] @ [ControlSignal])
     new_session) = Closed"
proof -
  have h: "\<forall>e\<in>set [Fragment [1], PeriodicTrigger, Fragment [2], PassCompleted]. recording_event e"
    by simp
  have r: "run_pass (\<lambda>b. if b = [] then None else Some (length b)) (\<lambda>n. Some (replicate n CHR ''a''))
     (fragments_of [Fragment [1], PeriodicTrigger, Fragment [2], PassCompleted]) = Inr ''aa''"
    by (simp add: run_pass_def numeral_2_eq_2)
  from final_unit_after_control_signal [OF h,
      of "\<lambda>b. if b = [] then None else Some (length b)" "\<lambda>n. Some (replicate n CHR ''a'')"]
  show ?thesis using h r by (simp only: sum.case list.set ball_simps simp_thms)
qed

end
